theory Spec2Isabelle
  imports Complex_Main "HOL-Library.Monad_Syntax"
begin

section \<open>The script-defined function \<open>calculate_fibonacci\<close>\<close>

text \<open>
  The example script \<^verbatim>\<open>examples/python_example.py\<close> defines
  \<^verbatim>\<open>
  def calculate_fibonacci(n):
      if n <= 0:
          return 0
      elif n == 1:
          return 1
      else:
          a, b = 0, 1
          for _ in range(2, n + 1):
              a, b = b, a + b
          return b
  \<close>
  Python integers are unbounded, so \<open>n\<close>, \<open>a\<close> and \<open>b\<close> are of type \<open>int\<close>.
\<close>

text \<open>
  The loop \<^verbatim>\<open>for _ in range(2, n + 1)\<close>: the range iterator holds a counter \<open>i\<close> that
  starts at the lower bound and advances by one for as long as it is below \<open>stop\<close>; every
  round performs the simultaneous assignment \<^verbatim>\<open>a, b = b, a + b\<close>. Once the range is
  exhausted the function returns \<open>b\<close>. The loop lives in the option monad, so that a loop
  that never returned would have the value \<open>None\<close>.
\<close>

partial_function (option) fib_loop :: "int \<Rightarrow> int \<Rightarrow> int \<Rightarrow> int \<Rightarrow> int option" where
  "fib_loop i stop a b = (if i < stop then fib_loop (i + 1) stop b (a + b) else Some b)"

declare fib_loop.simps [code]

definition calculate_fibonacci :: "int \<Rightarrow> int option" where
  "calculate_fibonacci n =
     (if n \<le> 0 then Some 0
      else if n = 1 then Some 1
      else fib_loop 2 (n + 1) 0 1)"

text \<open>The values that Python's \<^verbatim>\<open>range(start, stop)\<close> yields, in order.\<close>

definition py_range :: "int \<Rightarrow> int \<Rightarrow> int list" where
  "py_range start stop = [start..stop - 1]"

text \<open>One round of the loop body, acting on the pair \<open>(a, b)\<close>.\<close>

definition fib_step :: "int \<times> int \<Rightarrow> int \<times> int" where
  "fib_step s = (snd s, fst s + snd s)"

text \<open>
  The reference definition, following the words of the recurrence \<open>F(0) = 0\<close>,
  \<open>F(1) = 1\<close>, \<open>F(n) = F(n-1) + F(n-2)\<close>: naive recursion on the natural numbers.
\<close>

fun fib_ref :: "nat \<Rightarrow> int" where
  "fib_ref 0 = 0"
| "fib_ref (Suc 0) = 1"
| "fib_ref (Suc (Suc n)) = fib_ref (Suc n) + fib_ref n"


section \<open>The native \<open>Vector3\<close> type\<close>

text \<open>
  The script only uses \<^verbatim>\<open>Vector3\<close> (\<^verbatim>\<open>v1.dot(v2)\<close>, \<^verbatim>\<open>v1.cross(v2)\<close>, \<^verbatim>\<open>v1.length()\<close>,
  \<^verbatim>\<open>v1.normalize()\<close>, \<^verbatim>\<open>v1.rotated(axis, angle_rad)\<close>); the native implementation behind
  these calls is not part of the script. The definitions of this section follow the
  reference semantics of the specification (section 4.2), formula by formula. In this
  section components are mathematical real numbers and the arithmetic is exact; the
  double-precision arithmetic of the specification, with its rounding, underflow and
  overflow, is modelled in the next section.
\<close>

text \<open>Modelled from the spec: the error kinds of the bridge (section 7); the native
  error type itself is not in the script.\<close>

datatype BridgeError =
    TypeMismatchError
  | ArityMismatchError
  | DuplicateTypeError
  | DuplicateFunctionError
  | UnsupportedOperatorError
  | UnknownMethodError
  | StaleHandleError
  | DomainError
  | UndefinedFunctionError
  | ScriptRuntimeError string
  | SessionClosedError

text \<open>Modelled from the spec: the native \<^verbatim>\<open>Vector3\<close> type, "three numeric components
  (x, y, z)". The fields are named \<open>vx\<close>, \<open>vy\<close>, \<open>vz\<close> to keep \<open>x\<close>, \<open>y\<close>, \<open>z\<close> free as
  variables.\<close>

record Vector3 =
  vx :: real
  vy :: real
  vz :: real

text \<open>Modelled from the spec: the native operator \<^verbatim>\<open>add\<close>,
  \<open>add(a,b) = (a.x+b.x, a.y+b.y, a.z+b.z)\<close>.\<close>

definition add :: "Vector3 \<Rightarrow> Vector3 \<Rightarrow> Vector3" where
  "add a b = \<lparr>vx = vx a + vx b, vy = vy a + vy b, vz = vz a + vz b\<rparr>"



text \<open>Modelled from the spec: the native method \<^verbatim>\<open>dot\<close>,
  \<open>dot(a,b) = a.x*b.x + a.y*b.y + a.z*b.z\<close>.\<close>

definition dot :: "Vector3 \<Rightarrow> Vector3 \<Rightarrow> real" where
  "dot a b = vx a * vx b + vy a * vy b + vz a * vz b"


text \<open>Modelled from the spec: the native method \<^verbatim>\<open>length\<close>,
  \<open>length(v) = sqrt(dot(v,v))\<close>.\<close>

definition length_vec :: "Vector3 \<Rightarrow> real" where
  "length_vec v = sqrt (dot v v)"



text \<open>The vector all of whose components are zero.\<close>

definition zero_vector :: Vector3 where
  "zero_vector = \<lparr>vx = 0, vy = 0, vz = 0\<rparr>"

text \<open>Modelled from the spec: the native operator \<^verbatim>\<open>subtract\<close>, "\<open>subtract\<close> symmetric
  negation" of \<open>add\<close>: \<open>subtract(a,b) = (a.x-b.x, a.y-b.y, a.z-b.z)\<close>, in exact arithmetic.\<close>

definition subtract :: "Vector3 \<Rightarrow> Vector3 \<Rightarrow> Vector3" where
  "subtract a b = \<lparr>vx = vx a - vx b, vy = vy a - vy b, vz = vz a - vz b\<rparr>"


section \<open>Double-precision arithmetic\<close>

text \<open>
  The specification fixes the number type of the bridge: "Number (double-precision)"
  (section 3), "numeric marshalling preserves IEEE-754 double precision exactly"
  (section 4.1), and it states tolerances and exactness for \<open>add\<close>/\<open>subtract\<close>, \<open>lerp\<close>
  and \<open>normalize\<close> (section 8). Those properties depend on rounding, so this section
  models the same formulas over IEEE-754 binary64 numbers with the default rounding
  (to nearest, ties to even).

  A finite double is a real number of the form \<open>m * 2^e\<close> with \<open>\<bar>m\<bar> < 2^53\<close> and
  \<open>-1074 \<le> e \<le> 971\<close>. Every operation computes the exact real result and rounds it.
  A result that is not a finite double (overflow to an infinity, division by zero, square
  root of a negative number) is \<open>None\<close>, and \<open>None\<close> propagates: the model follows a
  computation only as long as all its intermediate values are finite, and says nothing
  about it afterwards. The two zeros of IEEE-754 compare equal and are one value here.
\<close>

text \<open>Modelled from the spec: rounding of a real to the nearest integer, ties to the
  even one (the IEEE-754 default rounding direction).\<close>

definition round_half_even :: "real \<Rightarrow> int" where
  "round_half_even y =
     (let f = \<lfloor>y\<rfloor>; d = y - of_int f
      in if d < 1 / 2 then f else if 1 / 2 < d then f + 1 else if even f then f else f + 1)"

text \<open>Modelled from the spec: the exponent of the unit in the last place of a double
  near \<open>x\<close>: 53 significant bits for normal numbers, the fixed exponent \<open>-1074\<close> for
  subnormal ones (gradual underflow).\<close>

definition ulp_exponent :: "real \<Rightarrow> int" where
  "ulp_exponent x = max (\<lfloor>log 2 \<bar>x\<bar>\<rfloor> - 52) (- 1074)"

text \<open>Modelled from the spec: rounding of an exact real result to double precision;
  \<open>None\<close> when the rounded value reaches \<open>2^1024\<close> in magnitude (overflow).\<close>

definition round_double :: "real \<Rightarrow> real option" where
  "round_double x =
     (if x = 0 then Some 0
      else let e = ulp_exponent x;
               r = of_int (round_half_even (x / 2 powi e)) * 2 powi e
           in if \<bar>r\<bar> < 2 ^ 1024 then Some r else None)"

text \<open>A real number is a finite double when rounding leaves it unchanged.\<close>

definition is_double :: "real \<Rightarrow> bool" where
  "is_double x \<longleftrightarrow> round_double x = Some x"

definition finite_vector :: "Vector3 \<Rightarrow> bool" where
  "finite_vector v \<longleftrightarrow> is_double (vx v) \<and> is_double (vy v) \<and> is_double (vz v)"

text \<open>Modelled from the spec: the five double-precision operations the formulas of
  section 4.2 and 4.3 use, each correctly rounded.\<close>

definition fadd :: "real \<Rightarrow> real \<Rightarrow> real option" where
  "fadd x y = round_double (x + y)"

definition fsub :: "real \<Rightarrow> real \<Rightarrow> real option" where
  "fsub x y = round_double (x - y)"

definition fmul :: "real \<Rightarrow> real \<Rightarrow> real option" where
  "fmul x y = round_double (x * y)"

definition fdiv :: "real \<Rightarrow> real \<Rightarrow> real option" where
  "fdiv x y = (if y = 0 then None else round_double (x / y))"

definition fsqrt :: "real \<Rightarrow> real option" where
  "fsqrt x = (if x < 0 then None else round_double (sqrt x))"

text \<open>Modelled from the spec: \<open>add(a,b) = (a.x+b.x, a.y+b.y, a.z+b.z)\<close> in double
  precision.\<close>

definition add_fp :: "Vector3 \<Rightarrow> Vector3 \<Rightarrow> Vector3 option" where
  "add_fp a b =
     do { x \<leftarrow> fadd (vx a) (vx b);
          y \<leftarrow> fadd (vy a) (vy b);
          z \<leftarrow> fadd (vz a) (vz b);
          Some \<lparr>vx = x, vy = y, vz = z\<rparr> }"

text \<open>Modelled from the spec: \<open>subtract\<close>, the symmetric negation of \<open>add\<close>, in double
  precision.\<close>

definition subtract_fp :: "Vector3 \<Rightarrow> Vector3 \<Rightarrow> Vector3 option" where
  "subtract_fp a b =
     do { x \<leftarrow> fsub (vx a) (vx b);
          y \<leftarrow> fsub (vy a) (vy b);
          z \<leftarrow> fsub (vz a) (vz b);
          Some \<lparr>vx = x, vy = y, vz = z\<rparr> }"

text \<open>"\<open>add(a,b)\<close> then \<open>subtract\<close> the same \<open>b\<close>" (section 8).\<close>

definition add_then_subtract_fp :: "Vector3 \<Rightarrow> Vector3 \<Rightarrow> Vector3 option" where
  "add_then_subtract_fp a b = do { s \<leftarrow> add_fp a b; subtract_fp s b }"

text \<open>Two vectors agree "within floating-point tolerance 1e-9" (section 8), component
  by component.\<close>

definition within_tolerance :: "Vector3 \<Rightarrow> Vector3 \<Rightarrow> bool" where
  "within_tolerance r a \<longleftrightarrow>
     \<bar>vx r - vx a\<bar> \<le> 1 / 10 ^ 9 \<and> \<bar>vy r - vy a\<bar> \<le> 1 / 10 ^ 9 \<and> \<bar>vz r - vz a\<bar> \<le> 1 / 10 ^ 9"

text \<open>All components have magnitude at most \<open>m\<close>.\<close>

definition bounded_vector :: "real \<Rightarrow> Vector3 \<Rightarrow> bool" where
  "bounded_vector m v \<longleftrightarrow> \<bar>vx v\<bar> \<le> m \<and> \<bar>vy v\<bar> \<le> m \<and> \<bar>vz v\<bar> \<le> m"

text \<open>Modelled from the spec: the native module function \<^verbatim>\<open>lerp\<close>,
  \<open>lerp(a, b, t) = a + (b - a) * t\<close> (section 4.3), on scalars, in double precision:
  the difference, the product and the sum are each rounded.\<close>

definition lerp_fp :: "real \<Rightarrow> real \<Rightarrow> real \<Rightarrow> real option" where
  "lerp_fp a b t = do { d \<leftarrow> fsub b a; p \<leftarrow> fmul d t; fadd a p }"

text \<open>Modelled from the spec: \<^verbatim>\<open>lerp\<close> "componentwise when a, b are Vector3".\<close>

definition lerp_vec_fp :: "Vector3 \<Rightarrow> Vector3 \<Rightarrow> real \<Rightarrow> Vector3 option" where
  "lerp_vec_fp a b t =
     do { x \<leftarrow> lerp_fp (vx a) (vx b) t;
          y \<leftarrow> lerp_fp (vy a) (vy b) t;
          z \<leftarrow> lerp_fp (vz a) (vz b) t;
          Some \<lparr>vx = x, vy = y, vz = z\<rparr> }"

text \<open>Modelled from the spec: \<open>dot(a,b) = a.x*b.x + a.y*b.y + a.z*b.z\<close> in double
  precision, the three products first, then the two sums from left to right.\<close>

definition dot_fp :: "Vector3 \<Rightarrow> Vector3 \<Rightarrow> real option" where
  "dot_fp a b =
     do { p \<leftarrow> fmul (vx a) (vx b);
          q \<leftarrow> fmul (vy a) (vy b);
          r \<leftarrow> fmul (vz a) (vz b);
          s \<leftarrow> fadd p q;
          fadd s r }"

text \<open>Modelled from the spec: \<open>length(v) = sqrt(dot(v,v))\<close> in double precision.\<close>

definition length_fp :: "Vector3 \<Rightarrow> real option" where
  "length_fp v = do { d \<leftarrow> dot_fp v v; fsqrt d }"

text \<open>Modelled from the spec: "divide each component by length" in double precision.\<close>

definition divide_fp :: "Vector3 \<Rightarrow> real \<Rightarrow> Vector3 option" where
  "divide_fp v l =
     do { x \<leftarrow> fdiv (vx v) l;
          y \<leftarrow> fdiv (vy v) l;
          z \<leftarrow> fdiv (vz v) l;
          Some \<lparr>vx = x, vy = y, vz = z\<rparr> }"

text \<open>Modelled from the spec: \<^verbatim>\<open>normalize\<close>, "if \<open>length(v) == 0\<close>, fail with DomainError;
  else divide each component by length", in double precision.\<close>

definition normalize_fp :: "Vector3 \<Rightarrow> (BridgeError + Vector3) option" where
  "normalize_fp v =
     do { l \<leftarrow> length_fp v;
          if l = 0 then Some (Inl DomainError) else map_option Inr (divide_fp v l) }"



section \<open>Properties of \<open>calculate_fibonacci\<close>\<close>

subsection \<open>The loop returns, after one round per element of the range\<close>

lemma fib_loop_fold:
  "fib_loop i stop a b = Some (snd (fold (\<lambda>_. fib_step) (py_range i stop) (a, b)))"
proof (induction "nat (stop - i)" arbitrary: i a b)
  case 0
  then have "\<not> i < stop" by simp
  then show ?case
    by (subst fib_loop.simps) (simp add: py_range_def)
next
  case (Suc k)
  then have lt: "i < stop" and k: "k = nat (stop - (i + 1))" by simp_all
  have r: "py_range i stop = i # py_range (i + 1) stop"
    using lt by (simp add: py_range_def upto_rec1)
  have "fib_loop i stop a b = fib_loop (i + 1) stop b (a + b)"
    using lt by (subst fib_loop.simps) simp
  also have "\<dots> = Some (snd (fold (\<lambda>_. fib_step) (py_range (i + 1) stop) (b, a + b)))"
    using Suc.hyps(1) [OF k] .
  finally show ?case
    by (simp add: r fib_step_def)
qed

lemma length_py_range: "length (py_range start stop) = nat (stop - start)"
  by (simp add: py_range_def)

subsection \<open>The loop invariant: \<open>(a, b)\<close> are two consecutive Fibonacci numbers\<close>

lemma fold_fib_step:
  "fold (\<lambda>_. fib_step) xs (fib_ref k, fib_ref (Suc k))
     = (fib_ref (k + length xs), fib_ref (Suc (k + length xs)))"
proof (induction xs arbitrary: k)
  case Nil
  show ?case by simp
next
  case (Cons x xs)
  have "fib_step (fib_ref k, fib_ref (Suc k)) = (fib_ref (Suc k), fib_ref (Suc (Suc k)))"
    by (simp add: fib_step_def)
  then show ?case
    using Cons.IH [of "Suc k"] by simp
qed

lemma calculate_fibonacci_nat:
  "calculate_fibonacci (int k) = Some (fib_ref k)"
proof -
  consider "k = 0" | "k = 1" | "2 \<le> k" by linarith
  then show ?thesis
  proof cases
    case 1
    then show ?thesis by (simp add: calculate_fibonacci_def)
  next
    case 2
    then show ?thesis by (simp add: calculate_fibonacci_def)
  next
    case 3
    then have len: "length (py_range 2 (int k + 1)) = k - 1"
      by (simp add: length_py_range)
    have "fold (\<lambda>_. fib_step) (py_range 2 (int k + 1)) (fib_ref 0, fib_ref (Suc 0))
            = (fib_ref (0 + (k - 1)), fib_ref (Suc (0 + (k - 1))))"
      unfolding len [symmetric] by (rule fold_fib_step)
    moreover have "Suc (k - 1) = k" using 3 by simp
    ultimately have "snd (fold (\<lambda>_. fib_step) (py_range 2 (int k + 1)) (0, 1)) = fib_ref k"
      by simp
    moreover have "calculate_fibonacci (int k) = fib_loop 2 (int k + 1) 0 1"
      using 3 by (simp add: calculate_fibonacci_def)
    ultimately show ?thesis
      by (simp add: fib_loop_fold)
  qed
qed

subsection \<open>The claims\<close>

text \<open>
  Claim C1. Calling \<open>calculate_fibonacci\<close> with argument 0 returns 0, with argument 1
  returns 1, and with argument 10 returns 55.
\<close>

theorem calculate_fibonacci_examples:
  "calculate_fibonacci 0 = Some 0 \<and> calculate_fibonacci 1 = Some 1 \<and>
   calculate_fibonacci 10 = Some 55"
  by code_simp

text \<open>
  Claim C8. For every integer \<open>n \<ge> 0\<close> the iterative \<open>calculate_fibonacci\<close> returns
  \<open>F(n)\<close> of the standard Fibonacci recurrence: the loop agrees with the naive recursive
  reference definition \<open>fib_ref\<close>.
\<close>

theorem calculate_fibonacci_refines_fib_ref:
  "0 \<le> n \<Longrightarrow> calculate_fibonacci n = Some (fib_ref (nat n))"
  using calculate_fibonacci_nat [of "nat n"] by simp

theorem calculate_fibonacci_refines_fib_ref_witness:
  "(0::int) \<le> 10 \<and> calculate_fibonacci 10 = Some (fib_ref (nat 10)) \<and> fib_ref (nat 10) = 55"
proof -
  have h: "(0::int) \<le> 10" by simp
  have "fib_ref (nat 10) = 55" by code_simp
  with h calculate_fibonacci_refines_fib_ref [OF h] show ?thesis by simp
qed

text \<open>
  Claim C9. For every integer \<open>n \<le> 0\<close>, \<open>calculate_fibonacci n\<close> returns 0 and raises no
  error: negative arguments are mapped to 0.
\<close>

theorem calculate_fibonacci_nonpositive:
  "n \<le> 0 \<Longrightarrow> calculate_fibonacci n = Some 0"
  by (simp add: calculate_fibonacci_def)

theorem calculate_fibonacci_nonpositive_witness:
  "(- 3::int) \<le> 0 \<and> calculate_fibonacci (- 3) = Some 0"
proof -
  have h: "(- 3::int) \<le> 0" by simp
  show ?thesis using h calculate_fibonacci_nonpositive [OF h] by simp
qed

text \<open>
  Claim C10. \<open>calculate_fibonacci\<close> terminates for every integer input: it returns a
  value for every \<open>n\<close>; its only loop runs one round for each element of the finite list
  \<open>range(2, n + 1)\<close>, which has \<open>n - 1\<close> elements for \<open>n \<ge> 1\<close> and is empty when \<open>n < 2\<close>.
\<close>

theorem calculate_fibonacci_terminates:
  "(\<exists>r. calculate_fibonacci n = Some r) \<and>
   fib_loop 2 (n + 1) a b = Some (snd (fold (\<lambda>_. fib_step) (py_range 2 (n + 1)) (a, b))) \<and>
   length (py_range 2 (n + 1)) = nat (n - 1) \<and>
   (n < 2 \<longrightarrow> py_range 2 (n + 1) = [])"
proof -
  have "\<exists>r. calculate_fibonacci n = Some r"
    by (simp add: calculate_fibonacci_def fib_loop_fold)
  moreover have "n < 2 \<longrightarrow> py_range 2 (n + 1) = []"
    by (simp add: py_range_def)
  ultimately show ?thesis
    by (simp add: fib_loop_fold length_py_range)
qed

theorem calculate_fibonacci_terminates_witness:
  "(1::int) < 2 \<and> calculate_fibonacci 1 = Some 1 \<and> py_range 2 (1 + 1) = [] \<and>
   fib_loop 2 (1 + 1) 0 1 = Some 1"
proof -
  have h: "(1::int) < 2" by simp
  have "calculate_fibonacci 1 = Some 1" by (simp add: calculate_fibonacci_def)
  then show ?thesis
    using h calculate_fibonacci_terminates [of 1 0 1] by simp
qed


section \<open>Properties of \<open>Vector3\<close>\<close>

lemma dot_self_nonneg: "0 \<le> dot v v"
  by (simp add: dot_def)







section \<open>Properties of the double-precision arithmetic\<close>

subsection \<open>Rounding: error bound and exactly representable numbers\<close>

lemma round_half_even_error: "\<bar>of_int (round_half_even y) - y\<bar> \<le> 1 / 2"
  unfolding round_half_even_def Let_def by (auto; linarith)

lemma round_half_even_of_int: "round_half_even (of_int n) = n"
  by (simp add: round_half_even_def)

lemma powr2_of_int: "(2::real) powr real_of_int k = 2 powi k"
  by (rule powr_real_of_int') simp_all

lemma floor_log2_iff:
  assumes "x \<noteq> 0"
  shows "\<lfloor>log 2 \<bar>x\<bar>\<rfloor> = k \<longleftrightarrow> 2 powi k \<le> \<bar>x\<bar> \<and> \<bar>x\<bar> < 2 powi (k + 1)"
proof -
  have pos: "0 < \<bar>x\<bar>" using assms by simp
  have "\<lfloor>log 2 \<bar>x\<bar>\<rfloor> = k \<longleftrightarrow>
          2 powr real_of_int k \<le> \<bar>x\<bar> \<and> \<bar>x\<bar> < 2 powr real_of_int (k + 1)"
    by (rule floor_log_eq_powr_iff [OF pos]) simp
  then show ?thesis
    unfolding powr2_of_int .
qed

lemma floor_log2_bounds:
  assumes "x \<noteq> 0"
  shows "2 powi \<lfloor>log 2 \<bar>x\<bar>\<rfloor> \<le> \<bar>x\<bar>" and "\<bar>x\<bar> < 2 powi (\<lfloor>log 2 \<bar>x\<bar>\<rfloor> + 1)"
  using floor_log2_iff [OF assms, of "\<lfloor>log 2 \<bar>x\<bar>\<rfloor>"] by blast+

lemma floor_log2_eq:
  assumes "2 powi k \<le> \<bar>x\<bar>" and "\<bar>x\<bar> < 2 powi (k + 1)"
  shows "\<lfloor>log 2 \<bar>x\<bar>\<rfloor> = k"
proof -
  have "(0::real) < 2 powi k" by simp
  with assms(1) have "0 < \<bar>x\<bar>" by linarith
  then have "x \<noteq> 0" by simp
  then show ?thesis
    using assms floor_log2_iff [of x k] by blast
qed

lemma ulp_le:
  assumes "x \<noteq> 0"
  shows "2 powi ulp_exponent x \<le> \<bar>x\<bar> / 2 ^ 52 + 1 / 2 ^ 1074"
proof -
  let ?k = "\<lfloor>log 2 \<bar>x\<bar>\<rfloor>"
  have a: "(2::real) powi (?k - 52) = 2 powi ?k / 2 ^ 52"
    by (simp add: power_int_diff)
  have b: "(2::real) powi (- 1074) = 1 / 2 ^ 1074"
    by (simp add: power_int_minus_divide)
  have c: "(2::real) powi ?k / 2 ^ 52 \<le> \<bar>x\<bar> / 2 ^ 52"
    using floor_log2_bounds(1) [OF assms] by (simp add: divide_right_mono)
  show ?thesis
  proof (cases "- 1074 \<le> ?k - 52")
    case True
    then have "ulp_exponent x = ?k - 52" by (simp add: ulp_exponent_def)
    then show ?thesis using a c by simp
  next
    case False
    then have "ulp_exponent x = - 1074" by (simp add: ulp_exponent_def)
    then show ?thesis using b by simp
  qed
qed

lemma round_double_error:
  assumes "\<bar>x\<bar> \<le> 2 ^ 1023"
  shows "\<exists>r. round_double x = Some r \<and> \<bar>r - x\<bar> \<le> \<bar>x\<bar> / 2 ^ 53 + 1 / 2 ^ 1075"
proof (cases "x = 0")
  case True
  then show ?thesis by (simp add: round_double_def)
next
  case False
  define e where "e = ulp_exponent x"
  define r :: real where "r = of_int (round_half_even (x / 2 powi e)) * 2 powi e"
  have p: "0 < (2::real) powi e" by simp
  have "r - x = (of_int (round_half_even (x / 2 powi e)) - x / 2 powi e) * 2 powi e"
    using p by (simp add: r_def algebra_simps)
  then have "\<bar>r - x\<bar> = \<bar>of_int (round_half_even (x / 2 powi e)) - x / 2 powi e\<bar> * 2 powi e"
    using p by (simp add: abs_mult)
  also have "\<dots> \<le> 1 / 2 * 2 powi e"
    using round_half_even_error [of "x / 2 powi e"] p by (intro mult_right_mono) simp_all
  also have "\<dots> \<le> 1 / 2 * (\<bar>x\<bar> / 2 ^ 52 + 1 / 2 ^ 1074)"
    using ulp_le [OF False] by (simp add: e_def)
  also have "\<dots> = \<bar>x\<bar> / 2 ^ 53 + 1 / 2 ^ 1075"
    by simp
  finally have err: "\<bar>r - x\<bar> \<le> \<bar>x\<bar> / 2 ^ 53 + 1 / 2 ^ 1075" .
  have "\<bar>r\<bar> \<le> \<bar>x\<bar> + \<bar>r - x\<bar>" by linarith
  also have "\<dots> \<le> 2 ^ 1023 + (2 ^ 1023 / 2 ^ 53 + 1 / 2 ^ 1075)"
    using err assms by (intro add_mono) (simp_all add: divide_right_mono)
  also have "\<dots> < (2::real) ^ 1024" by simp
  finally have "\<bar>r\<bar> < 2 ^ 1024" .
  then have "round_double x = Some r"
    using False by (simp add: round_double_def Let_def e_def r_def)
  with err show ?thesis by blast
qed


lemma round_double_exact:
  assumes m: "\<bar>m\<bar> < 2 ^ 53" and j: "- 1074 \<le> j" "j \<le> 971"
  shows "round_double (of_int m * 2 powi j) = Some (of_int m * 2 powi j)"
proof (cases "m = 0")
  case True
  then show ?thesis by (simp add: round_double_def)
next
  case False
  define x :: real where "x = of_int m * 2 powi j"
  define e where "e = ulp_exponent x"
  have x0: "x \<noteq> 0" using False by (simp add: x_def)
  have "\<bar>x\<bar> = of_int \<bar>m\<bar> * 2 powi j" by (simp add: x_def abs_mult)
  also have "\<dots> < 2 ^ 53 * 2 powi j"
  proof -
    have "real_of_int \<bar>m\<bar> < real_of_int (2 ^ 53)" using m by (simp only: of_int_less_iff)
    then show ?thesis by simp
  qed
  also have "\<dots> = 2 powi (53 + j)" by (simp add: power_int_add)
  finally have ub: "\<bar>x\<bar> < 2 powi (53 + j)" .
  have "2 powi \<lfloor>log 2 \<bar>x\<bar>\<rfloor> < (2::real) powi (53 + j)"
    using floor_log2_bounds(1) [OF x0] ub by linarith
  then have "\<lfloor>log 2 \<bar>x\<bar>\<rfloor> < 53 + j"
    using power_int_increasing [of "53 + j" "\<lfloor>log 2 \<bar>x\<bar>\<rfloor>" "2::real"] by (cases "\<lfloor>log 2 \<bar>x\<bar>\<rfloor> < 53 + j") simp_all
  then have ej: "e \<le> j" using j by (simp add: e_def ulp_exponent_def)
  have "x / 2 powi e = of_int m * 2 powi (j - e)"
    by (simp add: x_def power_int_diff)
  also have "\<dots> = of_int m * 2 ^ nat (j - e)"
    using ej by (simp add: power_int_def)
  also have "\<dots> = of_int (m * 2 ^ nat (j - e))" by simp
  finally have q: "x / 2 powi e = of_int (m * 2 ^ nat (j - e))" .
  have r: "of_int (round_half_even (x / 2 powi e)) * 2 powi e = x"
    unfolding q round_half_even_of_int unfolding q [symmetric] by simp
  have "\<bar>x\<bar> < 2 powi (53 + j)" by (rule ub)
  also have "\<dots> \<le> 2 powi 1024" using j by (intro power_int_increasing) simp_all
  finally have "\<bar>x\<bar> < 2 ^ 1024" by simp
  then show ?thesis
    using x0 r unfolding round_double_def Let_def e_def x_def by simp
qed

lemma round_double_of_int:
  "\<bar>m\<bar> < 2 ^ 53 \<Longrightarrow> round_double (of_int m) = Some (of_int m)"
  using round_double_exact [of m 0] by simp

lemma round_double_eval:
  assumes "2 powi k \<le> \<bar>x\<bar>" and "\<bar>x\<bar> < 2 powi (k + 1)"
    and "e = max (k - 52) (- 1074)"
    and "round_half_even (x / 2 powi e) = n"
    and "\<bar>of_int n * 2 powi e\<bar> < (2::real) ^ 1024"
  shows "round_double x = Some (of_int n * 2 powi e)"
proof -
  have "(0::real) < 2 powi k" by simp
  with assms(1) have "0 < \<bar>x\<bar>" by linarith
  then have "x \<noteq> 0" by simp
  moreover have "ulp_exponent x = e"
    using floor_log2_eq [OF assms(1,2)] assms(3) by (simp add: ulp_exponent_def)
  ultimately show ?thesis
    using assms(4,5) by (simp add: round_double_def Let_def)
qed

lemma round_double_overflow:
  assumes "2 powi k \<le> \<bar>x\<bar>" and "\<bar>x\<bar> < 2 powi (k + 1)"
    and "e = max (k - 52) (- 1074)"
    and "round_half_even (x / 2 powi e) = n"
    and "(2::real) ^ 1024 \<le> \<bar>of_int n * 2 powi e\<bar>"
  shows "round_double x = None"
proof -
  have "(0::real) < 2 powi k" by simp
  with assms(1) have "0 < \<bar>x\<bar>" by linarith
  then have "x \<noteq> 0" by simp
  moreover have "ulp_exponent x = e"
    using floor_log2_eq [OF assms(1,2)] assms(3) by (simp add: ulp_exponent_def)
  ultimately show ?thesis
    using assms(4,5) by (simp add: round_double_def Let_def)
qed

lemma is_double_of_int: "\<bar>m\<bar> < 2 ^ 53 \<Longrightarrow> is_double (of_int m)"
  by (simp add: is_double_def round_double_of_int)

lemma is_double_0: "is_double 0"
  by (simp add: is_double_def round_double_def)

lemma is_double_1: "is_double 1"
  using is_double_of_int [of 1] by simp

lemma is_double_pow2: "- 1074 \<le> j \<Longrightarrow> j \<le> 971 \<Longrightarrow> is_double (2 powi j)"
  using round_double_exact [of 1 j] by (simp add: is_double_def)

lemma round_double_moderate:
  assumes "\<bar>x\<bar> \<le> 2 ^ 1023"
  shows "\<exists>r. round_double x = Some r \<and> \<bar>r - x\<bar> \<le> (\<bar>x\<bar> + 1) / 2 ^ 53"
proof -
  obtain r where r: "round_double x = Some r" "\<bar>r - x\<bar> \<le> \<bar>x\<bar> / 2 ^ 53 + 1 / 2 ^ 1075"
    using round_double_error [OF assms] by blast
  have "(1::real) / 2 ^ 1075 \<le> 1 / 2 ^ 53" by simp
  with r(2) have "\<bar>r - x\<bar> \<le> \<bar>x\<bar> / 2 ^ 53 + 1 / 2 ^ 53" by linarith
  then have "\<bar>r - x\<bar> \<le> (\<bar>x\<bar> + 1) / 2 ^ 53" by (simp add: add_divide_distrib)
  with r(1) show ?thesis by blast
qed

lemma add_sub_scalar:
  assumes "\<bar>x\<bar> \<le> 10 ^ 6" and "\<bar>y\<bar> \<le> 10 ^ 6"
  shows "\<exists>s r. fadd x y = Some s \<and> fsub s y = Some r \<and> \<bar>r - x\<bar> \<le> 1 / 10 ^ 9"
proof -
  have "\<bar>x + y\<bar> \<le> 2 * 10 ^ 6" using assms by linarith
  moreover have "(2 * 10 ^ 6 :: real) \<le> 2 ^ 1023" by simp
  ultimately have "\<bar>x + y\<bar> \<le> 2 ^ 1023" by linarith
  then obtain s where s: "round_double (x + y) = Some s" "\<bar>s - (x + y)\<bar> \<le> (\<bar>x + y\<bar> + 1) / 2 ^ 53"
    using round_double_moderate by blast
  have s1: "\<bar>s - (x + y)\<bar> \<le> (2 * 10 ^ 6 + 1) / 2 ^ 53"
  proof -
    have "(\<bar>x + y\<bar> + 1) / 2 ^ 53 \<le> (2 * 10 ^ 6 + 1) / 2 ^ 53"
      using \<open>\<bar>x + y\<bar> \<le> 2 * 10 ^ 6\<close> by (intro divide_right_mono) simp_all
    with s(2) show ?thesis by linarith
  qed
  have sy: "\<bar>s - y\<bar> \<le> 10 ^ 6 + 1"
  proof -
    have "((2 * 10 ^ 6 + 1) / 2 ^ 53 :: real) \<le> 1" by simp
    with s1 assms(1) show ?thesis by linarith
  qed
  moreover have "(10 ^ 6 + 1 :: real) \<le> 2 ^ 1023" by simp
  ultimately have "\<bar>s - y\<bar> \<le> 2 ^ 1023" by linarith
  then obtain r where r: "round_double (s - y) = Some r" "\<bar>r - (s - y)\<bar> \<le> (\<bar>s - y\<bar> + 1) / 2 ^ 53"
    using round_double_moderate by blast
  have r1: "\<bar>r - (s - y)\<bar> \<le> (10 ^ 6 + 2) / 2 ^ 53"
  proof -
    have "(\<bar>s - y\<bar> + 1) / 2 ^ 53 \<le> (10 ^ 6 + 1 + 1) / 2 ^ 53"
      using sy by (intro divide_right_mono) simp_all
    with r(2) show ?thesis by simp
  qed
  have "\<bar>r - x\<bar> \<le> \<bar>r - (s - y)\<bar> + \<bar>s - (x + y)\<bar>" by linarith
  also have "\<dots> \<le> (10 ^ 6 + 2) / 2 ^ 53 + (2 * 10 ^ 6 + 1) / 2 ^ 53"
    using r1 s1 by linarith
  also have "\<dots> \<le> (1 / 10 ^ 9 :: real)" by simp
  finally have "\<bar>r - x\<bar> \<le> 1 / 10 ^ 9" .
  with s(1) r(1) show ?thesis
    by (auto simp: fadd_def fsub_def)
qed

subsection \<open>Adding and subtracting the same vector\<close>

lemma round_1_plus_2_60: "round_double (1 + 2 ^ 60) = Some (2 ^ 60)"
proof -
  have "round_double (1 + 2 ^ 60) = Some (of_int (2 ^ 52) * 2 powi 8)"
    by (rule round_double_eval [where k = 60]) (simp_all add: round_half_even_def)
  then show ?thesis by simp
qed

text \<open>
  Claim C4, as stated: for all finite \<open>a\<close> and \<open>b\<close>, \<open>subtract(add(a,b), b)\<close> returns \<open>a\<close>
  within tolerance 1e-9. It fails when \<open>b\<close> is so much larger than \<open>a\<close> that the rounded
  sum absorbs \<open>a\<close>: with \<open>a = (1,0,0)\<close> and \<open>b = (2^60,0,0)\<close>, both finite doubles, the sum
  rounds to \<open>b\<close> and the round trip returns \<open>(0,0,0)\<close>, which is 1 away from \<open>a\<close>.
\<close>

theorem add_subtract_absorption_counterexample:
  "finite_vector \<lparr>vx = 1, vy = 0, vz = 0\<rparr> \<and> finite_vector \<lparr>vx = 2 ^ 60, vy = 0, vz = 0\<rparr> \<and>
   add_then_subtract_fp \<lparr>vx = 1, vy = 0, vz = 0\<rparr> \<lparr>vx = 2 ^ 60, vy = 0, vz = 0\<rparr>
     = Some \<lparr>vx = 0, vy = 0, vz = 0\<rparr> \<and>
   \<not> within_tolerance \<lparr>vx = 0, vy = 0, vz = 0\<rparr> \<lparr>vx = 1, vy = 0, vz = 0\<rparr>"
proof -
  have d: "is_double (2 ^ 60)" using is_double_pow2 [of 60] by simp
  have a1: "fadd 1 (2 ^ 60) = Some (2 ^ 60)"
    unfolding fadd_def by (rule round_1_plus_2_60)
  have a2: "fadd 0 0 = Some 0" by (simp add: fadd_def round_double_def)
  have s1: "fsub (2 ^ 60) (2 ^ 60) = Some 0" by (simp add: fsub_def round_double_def)
  have s2: "fsub 0 0 = Some 0" by (simp add: fsub_def round_double_def)
  have "add_fp \<lparr>vx = 1, vy = 0, vz = 0\<rparr> \<lparr>vx = 2 ^ 60, vy = 0, vz = 0\<rparr>
          = Some \<lparr>vx = 2 ^ 60, vy = 0, vz = 0\<rparr>"
    using a1 a2 by (simp add: add_fp_def)
  moreover have "subtract_fp \<lparr>vx = 2 ^ 60, vy = 0, vz = 0\<rparr> \<lparr>vx = 2 ^ 60, vy = 0, vz = 0\<rparr>
          = Some \<lparr>vx = 0, vy = 0, vz = 0\<rparr>"
    using s1 s2 by (simp add: subtract_fp_def)
  ultimately have "add_then_subtract_fp \<lparr>vx = 1, vy = 0, vz = 0\<rparr> \<lparr>vx = 2 ^ 60, vy = 0, vz = 0\<rparr>
      = Some \<lparr>vx = 0, vy = 0, vz = 0\<rparr>"
    by (simp add: add_then_subtract_fp_def)
  then show ?thesis
    using d is_double_0 is_double_1
    by (simp add: finite_vector_def within_tolerance_def)
qed

text \<open>
  Claim C4, amended: for all \<open>a\<close> and \<open>b\<close> whose components have magnitude at most
  \<open>10^6\<close>, \<open>subtract(add(a,b), b)\<close> is a finite vector that agrees with \<open>a\<close> within
  tolerance 1e-9 in every component.
\<close>

theorem add_subtract_within_tolerance:
  assumes "bounded_vector (10 ^ 6) a" and "bounded_vector (10 ^ 6) b"
  shows "\<exists>r. add_then_subtract_fp a b = Some r \<and> within_tolerance r a"
proof -
  obtain sx rx where x: "fadd (vx a) (vx b) = Some sx" "fsub sx (vx b) = Some rx" "\<bar>rx - vx a\<bar> \<le> 1 / 10 ^ 9"
    using add_sub_scalar [of "vx a" "vx b"] assms by (auto simp: bounded_vector_def)
  obtain sy ry where y: "fadd (vy a) (vy b) = Some sy" "fsub sy (vy b) = Some ry" "\<bar>ry - vy a\<bar> \<le> 1 / 10 ^ 9"
    using add_sub_scalar [of "vy a" "vy b"] assms by (auto simp: bounded_vector_def)
  obtain sz rz where z: "fadd (vz a) (vz b) = Some sz" "fsub sz (vz b) = Some rz" "\<bar>rz - vz a\<bar> \<le> 1 / 10 ^ 9"
    using add_sub_scalar [of "vz a" "vz b"] assms by (auto simp: bounded_vector_def)
  have "add_then_subtract_fp a b = Some \<lparr>vx = rx, vy = ry, vz = rz\<rparr>"
    by (simp add: add_then_subtract_fp_def add_fp_def subtract_fp_def x y z)
  moreover have "within_tolerance \<lparr>vx = rx, vy = ry, vz = rz\<rparr> a"
    using x(3) y(3) z(3) by (simp add: within_tolerance_def)
  ultimately show ?thesis by blast
qed

theorem add_subtract_within_tolerance_witness:
  "bounded_vector (10 ^ 6) \<lparr>vx = 1, vy = 2, vz = 3\<rparr> \<and>
   bounded_vector (10 ^ 6) \<lparr>vx = 4, vy = 5, vz = 6\<rparr> \<and>
   add_fp \<lparr>vx = 1, vy = 2, vz = 3\<rparr> \<lparr>vx = 4, vy = 5, vz = 6\<rparr> = Some \<lparr>vx = 5, vy = 7, vz = 9\<rparr> \<and>
   (\<exists>r. add_then_subtract_fp \<lparr>vx = 1, vy = 2, vz = 3\<rparr> \<lparr>vx = 4, vy = 5, vz = 6\<rparr> = Some r \<and>
        within_tolerance r \<lparr>vx = 1, vy = 2, vz = 3\<rparr>)"
proof -
  have a: "bounded_vector (10 ^ 6) \<lparr>vx = 1, vy = 2, vz = 3\<rparr>"
    and b: "bounded_vector (10 ^ 6) \<lparr>vx = 4, vy = 5, vz = 6\<rparr>"
    by (simp_all add: bounded_vector_def)
  have "fadd 1 4 = Some 5" "fadd 2 5 = Some 7" "fadd 3 6 = Some 9"
    using round_double_of_int [of 5] round_double_of_int [of 7] round_double_of_int [of 9]
    by (simp_all add: fadd_def)
  then have s: "add_fp \<lparr>vx = 1, vy = 2, vz = 3\<rparr> \<lparr>vx = 4, vy = 5, vz = 6\<rparr> = Some \<lparr>vx = 5, vy = 7, vz = 9\<rparr>"
    by (simp add: add_fp_def)
  show ?thesis
    using a b s add_subtract_within_tolerance [OF a b] by simp
qed

subsection \<open>Linear interpolation at the end points\<close>

lemma lerp_scalar:
  assumes "is_double a" and "is_double b"
  shows "(fsub b a \<noteq> None \<longrightarrow> lerp_fp a b 0 = Some a) \<and>
         (fsub b a = Some (b - a) \<longrightarrow> lerp_fp a b 1 = Some b)"
proof -
  have z: "round_double 0 = Some 0" by (simp add: round_double_def)
  have a: "round_double a = Some a" and b: "round_double b = Some b"
    using assms by (simp_all add: is_double_def)
  have "lerp_fp a b 0 = Some a" if "fsub b a \<noteq> None"
  proof -
    from that obtain d where "fsub b a = Some d" by blast
    then show ?thesis by (simp add: lerp_fp_def fmul_def fadd_def z a)
  qed
  moreover have "lerp_fp a b 1 = Some b" if "fsub b a = Some (b - a)"
  proof -
    have "fmul (b - a) 1 = Some (b - a)" using that by (simp add: fmul_def fsub_def)
    then show ?thesis using that by (simp add: lerp_fp_def fadd_def b)
  qed
  ultimately show ?thesis by blast
qed

lemma subtract_fp_Some_iff:
  "subtract_fp b a = Some r \<longleftrightarrow>
     fsub (vx b) (vx a) = Some (vx r) \<and> fsub (vy b) (vy a) = Some (vy r) \<and>
     fsub (vz b) (vz a) = Some (vz r)"
  by (cases r) (auto simp: subtract_fp_def bind_eq_Some_conv)

lemma lerp_vector:
  assumes "finite_vector a" and "finite_vector b"
  shows "(subtract_fp b a \<noteq> None \<longrightarrow> lerp_vec_fp a b 0 = Some a) \<and>
         (subtract_fp b a = Some (subtract b a) \<longrightarrow> lerp_vec_fp a b 1 = Some b)"
proof -
  note sx = lerp_scalar [of "vx a" "vx b"] and sy = lerp_scalar [of "vy a" "vy b"]
    and sz = lerp_scalar [of "vz a" "vz b"]
  have fa: "is_double (vx a)" "is_double (vy a)" "is_double (vz a)"
    and fb: "is_double (vx b)" "is_double (vy b)" "is_double (vz b)"
    using assms by (simp_all add: finite_vector_def)
  have "lerp_vec_fp a b 0 = Some a" if "subtract_fp b a \<noteq> None"
  proof -
    from that obtain r where "subtract_fp b a = Some r" by blast
    then have "fsub (vx b) (vx a) \<noteq> None" "fsub (vy b) (vy a) \<noteq> None" "fsub (vz b) (vz a) \<noteq> None"
      by (simp_all add: subtract_fp_Some_iff)
    then have "lerp_fp (vx a) (vx b) 0 = Some (vx a)" "lerp_fp (vy a) (vy b) 0 = Some (vy a)"
      "lerp_fp (vz a) (vz b) 0 = Some (vz a)"
      using sx sy sz fa fb by blast+
    then show ?thesis by (simp add: lerp_vec_fp_def)
  qed
  moreover have "lerp_vec_fp a b 1 = Some b" if "subtract_fp b a = Some (subtract b a)"
  proof -
    from that have "fsub (vx b) (vx a) = Some (vx b - vx a)" "fsub (vy b) (vy a) = Some (vy b - vy a)"
      "fsub (vz b) (vz a) = Some (vz b - vz a)"
      by (simp_all add: subtract_fp_Some_iff subtract_def)
    then have "lerp_fp (vx a) (vx b) 1 = Some (vx b)" "lerp_fp (vy a) (vy b) 1 = Some (vy b)"
      "lerp_fp (vz a) (vz b) 1 = Some (vz b)"
      using sx sy sz fa fb by blast+
    then show ?thesis by (simp add: lerp_vec_fp_def)
  qed
  ultimately show ?thesis by blast
qed

text \<open>
  Claim C5, as stated: for every pair \<open>a\<close>, \<open>b\<close>, \<open>lerp(a, b, 0)\<close> equals \<open>a\<close> exactly and
  \<open>lerp(a, b, 1)\<close> equals \<open>b\<close> exactly. The second half fails when \<open>b - a\<close> is rounded:
  with \<open>a = 1\<close> and \<open>b = 2^-100\<close> the difference rounds to \<open>-1\<close> and \<open>lerp(a, b, 1)\<close> is 0.
  The first half fails when \<open>b - a\<close> overflows: with \<open>a = -2^1023\<close> and \<open>b = 2^1023\<close> the
  difference is no finite double (in IEEE-754 arithmetic it is an infinity, its product
  with 0 is NaN, and so is the sum), and \<open>lerp(a, b, 0)\<close> is not \<open>a\<close>.
\<close>

theorem lerp_endpoints_counterexample:
  "is_double 1 \<and> is_double (2 powi (- 100)) \<and>
   lerp_fp 1 (2 powi (- 100)) 1 = Some 0 \<and>
   lerp_fp 1 (2 powi (- 100)) 1 \<noteq> Some (2 powi (- 100)) \<and>
   is_double (- (2 ^ 1023)) \<and> is_double (2 ^ 1023) \<and>
   lerp_fp (- (2 ^ 1023)) (2 ^ 1023) 0 = None \<and>
   lerp_fp (- (2 ^ 1023)) (2 ^ 1023) 0 \<noteq> Some (- (2 ^ 1023))"
proof -
  have d1: "is_double (2 powi (- 100))" by (rule is_double_pow2) simp_all
  have s: "fsub (2 powi (- 100)) 1 = Some (- 1)"
  proof -
    have "round_double (2 powi (- 100) - 1) = Some (of_int (- (2 ^ 53)) * 2 powi (- 53))"
      by (rule round_double_eval [where k = "- 1"]) (simp_all add: round_half_even_def)
    then show ?thesis by (simp add: fsub_def)
  qed
  have m: "fmul (- 1) 1 = Some (- 1)"
    using round_double_of_int [of "- 1"] by (simp add: fmul_def)
  have a: "fadd 1 (- 1) = Some 0" by (simp add: fadd_def round_double_def)
  have l1: "lerp_fp 1 (2 powi (- 100)) 1 = Some 0"
    using s m a by (simp add: lerp_fp_def)
  have d2: "is_double (2 ^ 1023)"
    using round_double_exact [of "2 ^ 52" 971] by (simp add: is_double_def)
  have d3: "is_double (- (2 ^ 1023))"
    using round_double_exact [of "- (2 ^ 52)" 971] by (simp add: is_double_def)
  have "round_double (2 ^ 1023 - - (2 ^ 1023)) = None"
    by (rule round_double_overflow [where k = 1024 and e = 972 and n = "2 ^ 52"])
      (simp_all add: round_half_even_def)
  then have "fsub (2 ^ 1023) (- (2 ^ 1023)) = None"
    by (simp only: fsub_def)
  then have l0: "lerp_fp (- (2 ^ 1023)) (2 ^ 1023) 0 = None"
    by (simp add: lerp_fp_def)
  show ?thesis
    using is_double_1 d1 d2 d3 l1 l0 by simp
qed

text \<open>
  Claim C5, amended: for every pair of finite doubles \<open>a\<close> and \<open>b\<close> (componentwise for
  finite vectors), \<open>lerp(a, b, 0)\<close> equals \<open>a\<close> exactly whenever the difference \<open>b - a\<close> is
  a finite double, and \<open>lerp(a, b, 1)\<close> equals \<open>b\<close> exactly whenever the difference \<open>b - a\<close>
  is computed without rounding.
\<close>

theorem lerp_endpoints_exact:
  "(is_double a \<and> is_double b \<longrightarrow>
      (fsub b a \<noteq> None \<longrightarrow> lerp_fp a b 0 = Some a) \<and>
      (fsub b a = Some (b - a) \<longrightarrow> lerp_fp a b 1 = Some b)) \<and>
   (finite_vector u \<and> finite_vector v \<longrightarrow>
      (subtract_fp v u \<noteq> None \<longrightarrow> lerp_vec_fp u v 0 = Some u) \<and>
      (subtract_fp v u = Some (subtract v u) \<longrightarrow> lerp_vec_fp u v 1 = Some v))"
  using lerp_scalar [of a b] lerp_vector [of u v] by blast

theorem lerp_endpoints_exact_witness:
  "is_double 1 \<and> is_double 3 \<and> fsub 3 1 = Some (3 - 1) \<and>
   lerp_fp 1 3 0 = Some 1 \<and> lerp_fp 1 3 1 = Some 3 \<and>
   finite_vector \<lparr>vx = 1, vy = 2, vz = 3\<rparr> \<and> finite_vector \<lparr>vx = 4, vy = 5, vz = 6\<rparr> \<and>
   subtract_fp \<lparr>vx = 4, vy = 5, vz = 6\<rparr> \<lparr>vx = 1, vy = 2, vz = 3\<rparr>
     = Some (subtract \<lparr>vx = 4, vy = 5, vz = 6\<rparr> \<lparr>vx = 1, vy = 2, vz = 3\<rparr>) \<and>
   lerp_vec_fp \<lparr>vx = 1, vy = 2, vz = 3\<rparr> \<lparr>vx = 4, vy = 5, vz = 6\<rparr> 0 = Some \<lparr>vx = 1, vy = 2, vz = 3\<rparr> \<and>
   lerp_vec_fp \<lparr>vx = 1, vy = 2, vz = 3\<rparr> \<lparr>vx = 4, vy = 5, vz = 6\<rparr> 1 = Some \<lparr>vx = 4, vy = 5, vz = 6\<rparr>"
proof -
  have d: "is_double 1" "is_double 2" "is_double 3" "is_double 4" "is_double 5" "is_double 6"
    using is_double_of_int [of 1] is_double_of_int [of 2] is_double_of_int [of 3]
      is_double_of_int [of 4] is_double_of_int [of 5] is_double_of_int [of 6]
    by simp_all
  have s: "fsub 3 1 = Some (3 - 1)"
    using round_double_of_int [of 2] by (simp add: fsub_def)
  have s3: "fsub 4 1 = Some 3" "fsub 5 2 = Some 3" "fsub 6 3 = Some 3"
    using round_double_of_int [of 3] by (simp_all add: fsub_def)
  have fu: "finite_vector \<lparr>vx = 1, vy = 2, vz = 3\<rparr>" and fv: "finite_vector \<lparr>vx = 4, vy = 5, vz = 6\<rparr>"
    using d by (simp_all add: finite_vector_def)
  have sv: "subtract_fp \<lparr>vx = 4, vy = 5, vz = 6\<rparr> \<lparr>vx = 1, vy = 2, vz = 3\<rparr>
              = Some (subtract \<lparr>vx = 4, vy = 5, vz = 6\<rparr> \<lparr>vx = 1, vy = 2, vz = 3\<rparr>)"
    using s3 by (simp add: subtract_fp_def subtract_def)
  show ?thesis
    using d(1,3) s fu fv sv
      lerp_endpoints_exact [of 1 3 "\<lparr>vx = 1, vy = 2, vz = 3\<rparr>" "\<lparr>vx = 4, vy = 5, vz = 6\<rparr>"]
    by simp
qed

subsection \<open>Normalisation: error analysis\<close>

lemma round_double_rel:
  assumes "\<bar>x\<bar> \<le> 2 ^ 1023" and "\<bar>x\<bar> \<le> m" and "1 / 2 ^ 1000 \<le> m"
  shows "\<exists>r. round_double x = Some r \<and> \<bar>r - x\<bar> \<le> m / 2 ^ 52"
proof -
  obtain r where r: "round_double x = Some r" "\<bar>r - x\<bar> \<le> \<bar>x\<bar> / 2 ^ 53 + 1 / 2 ^ 1075"
    using round_double_error [OF assms(1)] by blast
  have "\<bar>x\<bar> / 2 ^ 53 \<le> m / 2 ^ 53"
    using assms(2) by (intro divide_right_mono) simp_all
  moreover have "(1::real) / 2 ^ 1075 \<le> m / 2 ^ 53"
  proof -
    have "(1::real) / 2 ^ 1075 \<le> (1 / 2 ^ 1000) / 2 ^ 53" by simp
    also have "\<dots> \<le> m / 2 ^ 53" using assms(3) by (intro divide_right_mono) simp_all
    finally show ?thesis .
  qed
  ultimately have "\<bar>r - x\<bar> \<le> m / 2 ^ 53 + m / 2 ^ 53" using r(2) by linarith
  then have "\<bar>r - x\<bar> \<le> m / 2 ^ 52" by simp
  with r(1) show ?thesis by blast
qed

lemma dot_fp_self_error:
  assumes L: "1 / 2 ^ 1000 \<le> dot t t" and H: "dot t t \<le> 2 ^ 1000"
  shows "\<exists>d. dot_fp t t = Some d \<and> \<bar>d - dot t t\<bar> \<le> dot t t / 2 ^ 48"
proof -
  define D where "D = dot t t"
  define a2 b2 c2 where "a2 = vx t * vx t" and "b2 = vy t * vy t" and "c2 = vz t * vz t"
  have nn: "0 \<le> a2" "0 \<le> b2" "0 \<le> c2" by (simp_all add: a2_def b2_def c2_def)
  have D: "D = a2 + b2 + c2" by (simp add: D_def dot_def a2_def b2_def c2_def)
  have DL: "1 / 2 ^ 1000 \<le> D" and DH: "D \<le> 2 ^ 1000" using L H by (simp_all add: D_def)
  have big: "(4 * 2 ^ 1000 :: real) \<le> 2 ^ 1023" by simp
  have e52: "D / 2 ^ 52 \<le> D" using DL by (simp add: field_simps)
  have D0: "0 \<le> D" using nn D by simp
  obtain p where p: "round_double a2 = Some p" "\<bar>p - a2\<bar> \<le> D / 2 ^ 52"
    using round_double_rel [of a2 D] nn D DL DH big by (auto simp: abs_if)
  obtain q where q: "round_double b2 = Some q" "\<bar>q - b2\<bar> \<le> D / 2 ^ 52"
    using round_double_rel [of b2 D] nn D DL DH big by (auto simp: abs_if)
  obtain r where r: "round_double c2 = Some r" "\<bar>r - c2\<bar> \<le> D / 2 ^ 52"
    using round_double_rel [of c2 D] nn D DL DH big by (auto simp: abs_if)
  have pq: "\<bar>p + q\<bar> \<le> 4 * D" using p(2) q(2) nn D e52 by linarith
  have "\<exists>s. round_double (p + q) = Some s \<and> \<bar>s - (p + q)\<bar> \<le> (4 * D) / 2 ^ 52"
    using pq DL DH big D0 by (intro round_double_rel) linarith+
  then obtain s where s: "round_double (p + q) = Some s" "\<bar>s - (p + q)\<bar> \<le> (4 * D) / 2 ^ 52"
    by blast
  have e4: "(4 * D) / 2 ^ 52 \<le> D" using D0 by simp
  have sr: "\<bar>s + r\<bar> \<le> 4 * D" using s(2) p(2) q(2) r(2) nn D e52 e4 D0 by linarith
  have "\<exists>d. round_double (s + r) = Some d \<and> \<bar>d - (s + r)\<bar> \<le> (4 * D) / 2 ^ 52"
    using sr DL DH big D0 by (intro round_double_rel) linarith+
  then obtain d where d: "round_double (s + r) = Some d" "\<bar>d - (s + r)\<bar> \<le> (4 * D) / 2 ^ 52"
    by blast
  have "\<bar>d - D\<bar> \<le> (4 * D) / 2 ^ 52 + (4 * D) / 2 ^ 52 + 3 * (D / 2 ^ 52)"
    using d(2) s(2) p(2) q(2) r(2) D by linarith
  also have "\<dots> \<le> D / 2 ^ 48" using D0 by simp
  finally have "\<bar>d - D\<bar> \<le> D / 2 ^ 48" .
  moreover have "dot_fp t t = Some d"
    using p(1) q(1) r(1) s(1) d(1)
    by (simp add: dot_fp_def fmul_def fadd_def a2_def b2_def c2_def)
  ultimately show ?thesis by (auto simp: D_def)
qed

lemma sqrt_rel:
  assumes "0 < D" and "0 \<le> d" and "0 \<le> \<epsilon>" and "\<bar>d - D\<bar> \<le> \<epsilon> * D"
  shows "\<bar>sqrt d - sqrt D\<bar> \<le> \<epsilon> * sqrt D"
proof -
  have s: "0 < sqrt D" "0 \<le> sqrt d" using assms by simp_all
  then have pos: "0 < sqrt d + sqrt D" by linarith
  have "(sqrt d - sqrt D) * (sqrt d + sqrt D) = d - D"
    using assms(1,2) by (simp add: algebra_simps)
  then have "\<bar>sqrt d - sqrt D\<bar> * (sqrt d + sqrt D) = \<bar>d - D\<bar>"
    using pos by (metis abs_mult abs_of_pos)
  also have "\<dots> \<le> \<epsilon> * D" by (rule assms(4))
  also have "\<dots> = (\<epsilon> * sqrt D) * sqrt D" using assms(1) by simp
  also have "\<dots> \<le> (\<epsilon> * sqrt D) * (sqrt d + sqrt D)"
    using s assms(3) by (intro mult_left_mono) simp_all
  finally show ?thesis using pos by simp
qed


lemma sqrt_pow2_500: "sqrt (2 ^ 1000) = 2 ^ 500" "sqrt (1 / 2 ^ 1000) = 1 / 2 ^ 500"
proof -
  have "(2::real) ^ 1000 = 2 ^ 500 * 2 ^ 500" by (simp add: power_add [symmetric])
  then show a: "sqrt (2 ^ 1000) = 2 ^ 500" by (simp only: real_sqrt_abs2) simp
  show "sqrt (1 / 2 ^ 1000) = 1 / 2 ^ 500"
    by (simp only: real_sqrt_divide a real_sqrt_one)
qed

lemma length_fp_error:
  assumes L: "1 / 2 ^ 1000 \<le> dot t t" and H: "dot t t \<le> 2 ^ 1000"
  shows "\<exists>l. length_fp t = Some l \<and> \<bar>l - length_vec t\<bar> \<le> length_vec t / 2 ^ 47"
proof -
  define D where "D = dot t t"
  define S where "S = sqrt D"
  have DL: "1 / 2 ^ 1000 \<le> D" and DH: "D \<le> 2 ^ 1000" using L H by (simp_all add: D_def)
  have Dpos: "0 < D"
  proof -
    have "(0::real) < 1 / 2 ^ 1000" by simp
    with DL show ?thesis by linarith
  qed
  obtain d where d: "dot_fp t t = Some d" "\<bar>d - D\<bar> \<le> D / 2 ^ 48"
    using dot_fp_self_error [OF L H] by (auto simp: D_def)
  have "D / 2 ^ 48 \<le> D" using Dpos by (simp add: field_simps)
  with d(2) have d0: "0 \<le> d" by linarith
  have SL: "1 / 2 ^ 500 \<le> S" and SH: "S \<le> 2 ^ 500"
    using real_sqrt_le_mono [OF DL] real_sqrt_le_mono [OF DH]
    by (simp_all only: S_def sqrt_pow2_500)
  have Spos: "0 < S" using Dpos by (simp add: S_def)
  have "\<bar>d - D\<bar> \<le> (1 / 2 ^ 48) * D" using d(2) by simp
  then have "\<bar>sqrt d - sqrt D\<bar> \<le> (1 / 2 ^ 48) * sqrt D"
    by (intro sqrt_rel [OF Dpos d0]) simp_all
  then have sd: "\<bar>sqrt d - S\<bar> \<le> S / 2 ^ 48" by (simp add: S_def)
  have "S / 2 ^ 48 \<le> S" using Spos by (simp add: field_simps)
  with sd Spos have b2: "\<bar>sqrt d\<bar> \<le> 2 * S" by linarith
  have "(2 * 2 ^ 500 :: real) \<le> 2 ^ 1023" by simp
  with b2 SH have b1: "\<bar>sqrt d\<bar> \<le> 2 ^ 1023" by linarith
  have "(1 / 2 ^ 1000 :: real) \<le> 2 * (1 / 2 ^ 500)" by simp
  with SL have b3: "1 / 2 ^ 1000 \<le> 2 * S" by linarith
  obtain l where l: "round_double (sqrt d) = Some l" "\<bar>l - sqrt d\<bar> \<le> (2 * S) / 2 ^ 52"
    using round_double_rel [OF b1 b2 b3] by blast
  have "\<bar>l - S\<bar> \<le> (2 * S) / 2 ^ 52 + S / 2 ^ 48" using l(2) sd by linarith
  also have "\<dots> \<le> S / 2 ^ 47" using Spos by simp
  finally have "\<bar>l - S\<bar> \<le> S / 2 ^ 47" .
  moreover have "length_fp t = Some l"
    using d(1) d0 l(1) by (simp add: length_fp_def fsqrt_def D_def)
  ultimately show ?thesis by (auto simp: length_vec_def S_def D_def)
qed

lemma fdiv_error:
  assumes Spos: "0 < S" and a: "\<bar>a\<bar> \<le> S" and l: "\<bar>l - S\<bar> \<le> S / 2 ^ 47"
  shows "\<exists>u. fdiv a l = Some u \<and> \<bar>u - a / S\<bar> \<le> 1 / 2 ^ 45"
proof -
  have "S / 2 ^ 47 \<le> S / 2" using Spos by simp
  with l have lh: "S / 2 \<le> l" by linarith
  with Spos have lpos: "0 < l" by linarith
  define w where "w = a / S"
  define \<rho> where "\<rho> = S / l"
  have w1: "\<bar>w\<bar> \<le> 1" using a Spos by (simp add: w_def)
  have "S / 2 ^ 47 \<le> l / 2 ^ 46" using lh by simp
  with l have "\<bar>S - l\<bar> \<le> l / 2 ^ 46" by linarith
  then have "\<bar>(S - l) / l\<bar> \<le> 1 / 2 ^ 46"
    using lpos by (simp add: field_simps)
  moreover have "\<rho> - 1 = (S - l) / l" using lpos by (simp add: \<rho>_def field_simps)
  ultimately have r1: "\<bar>\<rho> - 1\<bar> \<le> 1 / 2 ^ 46" by simp
  have al: "a / l = w * \<rho>" using Spos lpos by (simp add: w_def \<rho>_def)
  have "\<bar>w * \<rho> - w\<bar> = \<bar>w\<bar> * \<bar>\<rho> - 1\<bar>"
    by (simp add: abs_mult [symmetric] algebra_simps)
  also have "\<dots> \<le> 1 * (1 / 2 ^ 46)"
    using w1 r1 by (intro mult_mono) simp_all
  finally have e1: "\<bar>a / l - w\<bar> \<le> 1 / 2 ^ 46" by (simp add: al)
  have "(1 / 2 ^ 46 :: real) \<le> 1" by simp
  with e1 w1 have x2: "\<bar>a / l\<bar> \<le> 2" by linarith
  then have x1: "\<bar>a / l\<bar> \<le> 2 ^ 1023" by simp
  obtain u where u: "round_double (a / l) = Some u" "\<bar>u - a / l\<bar> \<le> 2 / 2 ^ 52"
    using round_double_rel [OF x1 x2] by auto
  have "\<bar>u - w\<bar> \<le> 2 / 2 ^ 52 + 1 / 2 ^ 46" using u(2) e1 by linarith
  also have "\<dots> \<le> (1 / 2 ^ 45 :: real)" by simp
  finally have "\<bar>u - a / S\<bar> \<le> 1 / 2 ^ 45" by (simp add: w_def)
  moreover have "fdiv a l = Some u" using lpos u(1) by (simp add: fdiv_def)
  ultimately show ?thesis by blast
qed

lemma square_close:
  assumes "\<bar>w\<bar> \<le> 1" and "\<bar>u - w\<bar> \<le> \<epsilon>" and "\<epsilon> \<le> 1"
  shows "\<bar>u * u - w * w\<bar> \<le> 3 * (\<epsilon>::real)"
proof -
  have e0: "0 \<le> \<epsilon>" using assms(2) by linarith
  have "u * u - w * w = (u - w) * (u + w)" by (simp add: algebra_simps)
  then have "\<bar>u * u - w * w\<bar> = \<bar>u - w\<bar> * \<bar>u + w\<bar>" by (simp add: abs_mult)
  also have "\<dots> \<le> \<epsilon> * 3"
    using assms e0 by (intro mult_mono) linarith+
  finally show ?thesis by simp
qed

lemma component_le_length:
  "\<bar>vx v\<bar> \<le> length_vec v" "\<bar>vy v\<bar> \<le> length_vec v" "\<bar>vz v\<bar> \<le> length_vec v"
proof -
  have "vx v * vx v \<le> dot v v" "vy v * vy v \<le> dot v v" "vz v * vz v \<le> dot v v"
    by (simp_all add: dot_def)
  then have "sqrt (vx v * vx v) \<le> sqrt (dot v v)" "sqrt (vy v * vy v) \<le> sqrt (dot v v)"
    "sqrt (vz v * vz v) \<le> sqrt (dot v v)"
    by (simp_all only: real_sqrt_le_iff)
  then show "\<bar>vx v\<bar> \<le> length_vec v" "\<bar>vy v\<bar> \<le> length_vec v" "\<bar>vz v\<bar> \<le> length_vec v"
    by (simp_all only: real_sqrt_abs2 length_vec_def)
qed

lemma normalize_fp_unit:
  assumes SL: "1 / 2 ^ 500 \<le> length_vec v" and SH: "length_vec v \<le> 2 ^ 500"
  shows "\<exists>u l. normalize_fp v = Some (Inr u) \<and> length_fp u = Some l \<and> \<bar>l - 1\<bar> \<le> 1 / 10 ^ 9"
proof -
  define S where "S = length_vec v"
  define D where "D = dot v v"
  have Spos: "0 < S"
  proof -
    have "(0::real) < 1 / 2 ^ 500" by simp
    with SL show ?thesis by (simp add: S_def)
  qed
  have SS: "S * S = D"
    using dot_self_nonneg [of v] by (simp add: S_def D_def length_vec_def)
  have DL: "1 / 2 ^ 1000 \<le> dot v v"
  proof -
    have "(1 / 2 ^ 500) * (1 / 2 ^ 500) \<le> S * S"
      using SL by (intro mult_mono) (simp_all add: S_def)
    then show ?thesis by (simp add: SS D_def)
  qed
  have DH: "dot v v \<le> 2 ^ 1000"
  proof -
    have "S * S \<le> 2 ^ 500 * 2 ^ 500"
      using SH Spos by (intro mult_mono) (simp_all add: S_def)
    then show ?thesis by (simp add: SS D_def)
  qed
  obtain l where l: "length_fp v = Some l" "\<bar>l - S\<bar> \<le> S / 2 ^ 47"
    using length_fp_error [OF DL DH] by (auto simp: S_def)
  have "S / 2 ^ 47 \<le> S / 2" using Spos by simp
  with l(2) Spos have l0: "l \<noteq> 0" by linarith
  obtain ux where ux: "fdiv (vx v) l = Some ux" "\<bar>ux - vx v / S\<bar> \<le> 1 / 2 ^ 45"
    using fdiv_error [OF Spos _ l(2), of "vx v"] component_le_length(1) [of v]
    by (auto simp: S_def)
  obtain uy where uy: "fdiv (vy v) l = Some uy" "\<bar>uy - vy v / S\<bar> \<le> 1 / 2 ^ 45"
    using fdiv_error [OF Spos _ l(2), of "vy v"] component_le_length(2) [of v]
    by (auto simp: S_def)
  obtain uz where uz: "fdiv (vz v) l = Some uz" "\<bar>uz - vz v / S\<bar> \<le> 1 / 2 ^ 45"
    using fdiv_error [OF Spos _ l(2), of "vz v"] component_le_length(3) [of v]
    by (auto simp: S_def)
  define u where "u = \<lparr>vx = ux, vy = uy, vz = uz\<rparr>"
  have norm: "normalize_fp v = Some (Inr u)"
    using l(1) l0 ux(1) uy(1) uz(1) by (simp add: normalize_fp_def divide_fp_def u_def)
  define wx wy wz where "wx = vx v / S" and "wy = vy v / S" and "wz = vz v / S"
  have w1: "\<bar>wx\<bar> \<le> 1" "\<bar>wy\<bar> \<le> 1" "\<bar>wz\<bar> \<le> 1"
    using component_le_length [of v] Spos by (simp_all add: wx_def wy_def wz_def S_def)
  have "wx * wx + wy * wy + wz * wz = D / (S * S)"
    by (simp add: wx_def wy_def wz_def D_def dot_def add_divide_distrib)
  also have "\<dots> = 1" using Spos by (simp add: SS [symmetric])
  finally have wsum: "wx * wx + wy * wy + wz * wz = 1" .
  have e1: "(1 / 2 ^ 45 :: real) \<le> 1" by simp
  have sx: "\<bar>ux * ux - wx * wx\<bar> \<le> 3 * (1 / 2 ^ 45)"
    using ux(2) by (intro square_close [OF w1(1) _ e1]) (simp add: wx_def)
  have sy: "\<bar>uy * uy - wy * wy\<bar> \<le> 3 * (1 / 2 ^ 45)"
    using uy(2) by (intro square_close [OF w1(2) _ e1]) (simp add: wy_def)
  have sz: "\<bar>uz * uz - wz * wz\<bar> \<le> 3 * (1 / 2 ^ 45)"
    using uz(2) by (intro square_close [OF w1(3) _ e1]) (simp add: wz_def)
  define T where "T = dot u u"
  have T: "T = ux * ux + uy * uy + uz * uz" by (simp add: T_def u_def dot_def)
  have "\<bar>T - 1\<bar> \<le> 9 * (1 / 2 ^ 45)" using sx sy sz wsum T by linarith
  moreover have "(9 * (1 / 2 ^ 45) :: real) \<le> 1 / 2 ^ 41" by simp
  ultimately have T1: "\<bar>T - 1\<bar> \<le> 1 / 2 ^ 41" by linarith
  have "(1 / 2 ^ 41 :: real) \<le> 1 / 2" by simp
  with T1 have Tb: "1 / 2 \<le> T" "T \<le> 2" by linarith+
  have "(1 / 2 ^ 1000 :: real) \<le> 1 / 2" "(2 :: real) \<le> 2 ^ 1000" by simp_all
  with Tb have TL: "1 / 2 ^ 1000 \<le> dot u u" and TH: "dot u u \<le> 2 ^ 1000"
    by (simp_all add: T_def)
  obtain l' where l': "length_fp u = Some l'" "\<bar>l' - sqrt T\<bar> \<le> sqrt T / 2 ^ 47"
    using length_fp_error [OF TL TH] by (auto simp: length_vec_def T_def)
  have "\<bar>sqrt T - sqrt 1\<bar> \<le> (1 / 2 ^ 41) * sqrt 1"
    using T1 Tb by (intro sqrt_rel) simp_all
  then have r1: "\<bar>sqrt T - 1\<bar> \<le> 1 / 2 ^ 41" by simp
  with \<open>(1 / 2 ^ 41 :: real) \<le> 1 / 2\<close> have "sqrt T \<le> 2" by linarith
  then have "sqrt T / 2 ^ 47 \<le> 2 / 2 ^ 47" by (intro divide_right_mono) simp_all
  with l'(2) r1 have "\<bar>l' - 1\<bar> \<le> 2 / 2 ^ 47 + 1 / 2 ^ 41" by linarith
  also have "\<dots> \<le> (1 / 10 ^ 9 :: real)" by simp
  finally have "\<bar>l' - 1\<bar> \<le> 1 / 10 ^ 9" .
  with norm l'(1) show ?thesis by blast
qed

lemma normalize_fp_error_iff:
  "normalize_fp v = Some (Inl e) \<longleftrightarrow> e = DomainError \<and> length_fp v = Some 0"
proof (cases "length_fp v")
  case None
  then show ?thesis by (simp add: normalize_fp_def)
next
  case (Some l)
  then show ?thesis
    by (cases "divide_fp v l") (auto simp: normalize_fp_def)
qed

lemma length_fp_underflow:
  "length_fp \<lparr>vx = 2 powi (- 600), vy = 0, vz = 0\<rparr> = Some 0"
proof -
  have "round_double (2 powi (- 600) * 2 powi (- 600)) = Some (of_int 0 * 2 powi (- 1074))"
    by (rule round_double_eval [where k = "- 1200"]) (simp_all add: round_half_even_def)
  then have m: "fmul (2 powi (- 600)) (2 powi (- 600)) = Some 0"
    by (simp add: fmul_def)
  have z: "fmul 0 0 = Some 0" "fadd 0 0 = Some 0" "fsqrt 0 = Some 0"
    by (simp_all add: fmul_def fadd_def fsqrt_def round_double_def)
  have "dot_fp \<lparr>vx = 2 powi (- 600), vy = 0, vz = 0\<rparr> \<lparr>vx = 2 powi (- 600), vy = 0, vz = 0\<rparr> = Some 0"
    using m z by (simp add: dot_fp_def)
  then show ?thesis
    using z by (simp add: length_fp_def)
qed

text \<open>
  Claim C7, as stated: \<open>normalize(v)\<close> fails with \<open>DomainError\<close> exactly when
  \<open>length(v) == 0\<close>, and for every non-zero \<open>v\<close> it returns \<open>v\<close> with each component divided
  by \<open>length(v)\<close>. It fails for a non-zero \<open>v\<close> whose squared components underflow: the
  finite vector \<open>(2^-600, 0, 0)\<close> is not the zero vector, yet its computed length is 0 and
  \<open>normalize\<close> fails with \<open>DomainError\<close>.
\<close>

theorem normalize_underflow_counterexample:
  "finite_vector \<lparr>vx = 2 powi (- 600), vy = 0, vz = 0\<rparr> \<and>
   \<lparr>vx = 2 powi (- 600), vy = 0, vz = 0\<rparr> \<noteq> zero_vector \<and>
   length_fp \<lparr>vx = 2 powi (- 600), vy = 0, vz = 0\<rparr> = Some 0 \<and>
   normalize_fp \<lparr>vx = 2 powi (- 600), vy = 0, vz = 0\<rparr> = Some (Inl DomainError)"
proof -
  have d: "is_double (2 powi (- 600))" by (rule is_double_pow2) simp_all
  have n: "\<lparr>vx = 2 powi (- 600), vy = 0, vz = 0\<rparr> \<noteq> zero_vector"
    by (simp add: zero_vector_def)
  show ?thesis
    using d n is_double_0 length_fp_underflow
    by (simp add: finite_vector_def normalize_fp_def)
qed

text \<open>
  Claim C7, amended: \<open>normalize(v)\<close> fails with \<open>DomainError\<close> exactly when the computed
  \<open>length(v)\<close> is 0, and with no other error; whenever the computed length is a non-zero
  finite double, \<open>normalize(v)\<close> is \<open>v\<close> with each component divided by that length; and
  for every \<open>v\<close> whose exact length lies between \<open>2^-500\<close> and \<open>2^500\<close>, \<open>normalize(v)\<close>
  returns a vector whose computed length is within 1e-9 of 1.
\<close>

theorem normalize_fp_domain_error_and_unit:
  "(normalize_fp v = Some (Inl DomainError) \<longleftrightarrow> length_fp v = Some 0) \<and>
   (\<forall>e. normalize_fp v = Some (Inl e) \<longrightarrow> e = DomainError) \<and>
   (\<forall>l. length_fp v = Some l \<and> l \<noteq> 0 \<longrightarrow> normalize_fp v = map_option Inr (divide_fp v l)) \<and>
   (1 / 2 ^ 500 \<le> length_vec v \<and> length_vec v \<le> 2 ^ 500 \<longrightarrow>
      (\<exists>u l. normalize_fp v = Some (Inr u) \<and> length_fp u = Some l \<and> \<bar>l - 1\<bar> \<le> 1 / 10 ^ 9))"
proof -
  have "normalize_fp v = Some (Inl DomainError) \<longleftrightarrow> length_fp v = Some 0"
    by (simp add: normalize_fp_error_iff)
  moreover have "\<forall>e. normalize_fp v = Some (Inl e) \<longrightarrow> e = DomainError"
    by (simp add: normalize_fp_error_iff)
  moreover have "\<forall>l. length_fp v = Some l \<and> l \<noteq> 0 \<longrightarrow>
      normalize_fp v = map_option Inr (divide_fp v l)"
    by (simp add: normalize_fp_def)
  moreover have "1 / 2 ^ 500 \<le> length_vec v \<and> length_vec v \<le> 2 ^ 500 \<longrightarrow>
      (\<exists>u l. normalize_fp v = Some (Inr u) \<and> length_fp u = Some l \<and> \<bar>l - 1\<bar> \<le> 1 / 10 ^ 9)"
    using normalize_fp_unit [of v] by blast
  ultimately show ?thesis by blast
qed

theorem normalize_fp_domain_error_and_unit_witness:
  "1 / 2 ^ 500 \<le> length_vec \<lparr>vx = 0, vy = 2, vz = 0\<rparr> \<and>
   length_vec \<lparr>vx = 0, vy = 2, vz = 0\<rparr> \<le> 2 ^ 500 \<and>
   length_fp \<lparr>vx = 0, vy = 2, vz = 0\<rparr> = Some 2 \<and>
   divide_fp \<lparr>vx = 0, vy = 2, vz = 0\<rparr> 2 = Some \<lparr>vx = 0, vy = 1, vz = 0\<rparr> \<and>
   normalize_fp \<lparr>vx = 0, vy = 2, vz = 0\<rparr> = Some (Inr \<lparr>vx = 0, vy = 1, vz = 0\<rparr>) \<and>
   length_fp \<lparr>vx = 0, vy = 1, vz = 0\<rparr> = Some 1 \<and>
   (\<exists>u l. normalize_fp \<lparr>vx = 0, vy = 2, vz = 0\<rparr> = Some (Inr u) \<and> length_fp u = Some l \<and>
          \<bar>l - 1\<bar> \<le> 1 / 10 ^ 9)"
proof -
  have r: "round_double 0 = Some 0" "round_double 1 = Some 1" "round_double 2 = Some 2"
    "round_double 4 = Some 4"
    using round_double_of_int [of 0] round_double_of_int [of 1] round_double_of_int [of 2]
      round_double_of_int [of 4]
    by simp_all
  have lv: "length_vec \<lparr>vx = 0, vy = 2, vz = 0\<rparr> = 2"
    by (simp add: length_vec_def dot_def)
  have h: "1 / 2 ^ 500 \<le> length_vec \<lparr>vx = 0, vy = 2, vz = 0\<rparr> \<and>
           length_vec \<lparr>vx = 0, vy = 2, vz = 0\<rparr> \<le> 2 ^ 500"
    unfolding lv by simp
  have l2: "length_fp \<lparr>vx = 0, vy = 2, vz = 0\<rparr> = Some 2"
    using r by (simp add: length_fp_def dot_fp_def fmul_def fadd_def fsqrt_def)
  have dv: "divide_fp \<lparr>vx = 0, vy = 2, vz = 0\<rparr> 2 = Some \<lparr>vx = 0, vy = 1, vz = 0\<rparr>"
    using r by (simp add: divide_fp_def fdiv_def)
  have l1: "length_fp \<lparr>vx = 0, vy = 1, vz = 0\<rparr> = Some 1"
    using r by (simp add: length_fp_def dot_fp_def fmul_def fadd_def fsqrt_def)
  show ?thesis
    using h l2 dv l1 normalize_fp_domain_error_and_unit [of "\<lparr>vx = 0, vy = 2, vz = 0\<rparr>"]
    by simp
qed

end
